theory Spec2Isabelle
  imports Complex_Main
begin

section \<open>Python values and exceptions\<close>

text \<open>
  The analysis script \<^verbatim>\<open>analyze.py\<close> measures write latencies of a replicated key-value
  store and compares the replicas afterwards. Latencies are Python floats; they are modelled
  as \<^typ>\<open>real\<close>, so rounding of the float arithmetic is not part of the model. Every
  exception the script can meet is a value of \<open>py_error\<close>; all of them are subclasses of
  Python's \<^verbatim>\<open>Exception\<close>, which is what the script's handlers catch.
\<close>

datatype py_error =
    IndexError
  | ValueError
  | StatisticsError
  | AttributeError
  | ClientError
  | ContentTypeError
  | JSONDecodeError

text \<open>Sequencing of computations that may raise: the first exception wins.\<close>

definition bindE :: "py_error + 'a \<Rightarrow> ('a \<Rightarrow> py_error + 'b) \<Rightarrow> py_error + 'b" where
  "bindE m f = (case m of Inl e \<Rightarrow> Inl e | Inr x \<Rightarrow> f x)"

text \<open>Python's \<^verbatim>\<open>xs[i]\<close> on a list: an index from \<open>0\<close> to \<open>len - 1\<close> reads from the
  front, one from \<open>-len\<close> to \<open>-1\<close> from the back, every other index raises.\<close>

definition py_index :: "'a list \<Rightarrow> int \<Rightarrow> py_error + 'a" where
  "py_index xs i =
     (if 0 \<le> i \<and> i < int (length xs) then Inr (xs ! nat i)
      else if - int (length xs) \<le> i \<and> i < 0 then Inr (xs ! nat (int (length xs) + i))
      else Inl IndexError)"

text \<open>\<^verbatim>\<open>int(x)\<close> on a float truncates towards zero.\<close>

definition py_int :: "real \<Rightarrow> int" where
  "py_int x = (if 0 \<le> x then \<lfloor>x\<rfloor> else \<lceil>x\<rceil>)"

text \<open>\<^verbatim>\<open>min\<close> and \<^verbatim>\<open>max\<close> of a list raise \<^verbatim>\<open>ValueError\<close> on the empty list.\<close>

fun py_min :: "real list \<Rightarrow> py_error + real" where
  "py_min [] = Inl ValueError"
| "py_min (x # xs) = Inr (fold min xs x)"

fun py_max :: "real list \<Rightarrow> py_error + real" where
  "py_max [] = Inl ValueError"
| "py_max (x # xs) = Inr (fold max xs x)"

text \<open>\<^verbatim>\<open>statistics.mean\<close> and \<^verbatim>\<open>statistics.median\<close> of the standard library: both raise
  \<^verbatim>\<open>StatisticsError\<close> on no data; the median of an even number of points is the average
  of the two middle ones.\<close>

definition statistics_mean :: "real list \<Rightarrow> py_error + real" where
  "statistics_mean data =
     (if length data < 1 then Inl StatisticsError
      else Inr (sum_list data / real (length data)))"

definition statistics_median :: "real list \<Rightarrow> py_error + real" where
  "statistics_median data0 =
     (let data = sort data0; n = length data
      in if n = 0 then Inl StatisticsError
         else if n mod 2 = 1 then py_index data (int (n div 2))
         else (let i = n div 2
               in bindE (py_index data (int i - 1)) (\<lambda>a.
                  bindE (py_index data (int i)) (\<lambda>b.
                  Inr ((a + b) / 2)))))"

section \<open>The statistics aggregator\<close>

record LatencyStats =
  mean :: real
  median :: real
  p95 :: real
  p99 :: real
  min_val :: real
  max_val :: real

text \<open>The index \<^verbatim>\<open>int(n * p)\<close> used for the percentiles. The product is taken exactly;
  for \<open>p\<close> the float nearest to 0.95 or to 0.99 and every length a list can have, the
  float product has the same integer part.\<close>

definition pct_index :: "nat \<Rightarrow> real \<Rightarrow> int" where
  "pct_index n p = py_int (real n * p)"

definition calculate_stats :: "real list \<Rightarrow> py_error + LatencyStats" where
  "calculate_stats latencies =
     (if latencies = [] then
        Inr \<lparr>mean = 0, median = 0, p95 = 0, p99 = 0, min_val = 0, max_val = 0\<rparr>
      else
        (let sorted_lats = sort latencies; n = length sorted_lats
         in bindE (statistics_mean latencies) (\<lambda>v_mean.
            bindE (statistics_median latencies) (\<lambda>v_median.
            bindE (if n > 1 then py_index sorted_lats (pct_index n 0.95)
                   else py_index sorted_lats 0) (\<lambda>v_p95.
            bindE (if n > 1 then py_index sorted_lats (pct_index n 0.99)
                   else py_index sorted_lats 0) (\<lambda>v_p99.
            bindE (py_min latencies) (\<lambda>v_min.
            bindE (py_max latencies) (\<lambda>v_max.
            Inr \<lparr>mean = v_mean, median = v_median, p95 = v_p95, p99 = v_p99,
                 min_val = v_min, max_val = v_max\<rparr>))))))))"

text \<open>
  The values the aggregator returns on a non-empty sample, written out: the median as
  \<^verbatim>\<open>statistics.median\<close> computes it, and the value at a 1-indexed rank of the
  ascending-sorted sample.
\<close>

definition median_of :: "real list \<Rightarrow> real" where
  "median_of xs =
     (let s = sort xs; n = length xs
      in if n mod 2 = 1 then s ! (n div 2) else (s ! (n div 2 - 1) + s ! (n div 2)) / 2)"

definition rank_value :: "real list \<Rightarrow> nat \<Rightarrow> real" where
  "rank_value xs r = sort xs ! (r - 1)"

text \<open>
  The nearest-rank percentile as the design document words it: the value at rank
  \<open>\<lceil>n \<cdot> p\<rceil>\<close>, 1-indexed, of the ascending-sorted sample.
\<close>

definition spec_nearest_rank :: "real list \<Rightarrow> real \<Rightarrow> real" where
  "spec_nearest_rank xs p = rank_value xs (nat \<lceil>real (length xs) * p\<rceil>)"

definition sample20 :: "real list" where
  "sample20 = [1, 2, 3, 4, 5, 6, 7, 8, 9, 10, 11, 12, 13, 14, 15, 16, 17, 18, 19, 20]"

text \<open>The example of the script's own explanation of the metrics: 99 requests of 10 ms and
  one of 1000 ms.\<close>

definition outlier_sample :: "real list" where
  "outlier_sample = replicate 99 10 @ [1000]"

section \<open>The remote store client\<close>

text \<open>
  A decoded JSON value, with Python's truthiness (\<^verbatim>\<open>if data.get("success")\<close>) and
  \<^verbatim>\<open>data.get(key)\<close>: on a dict the value or \<^verbatim>\<open>None\<close>, on any other decoded value an
  \<^verbatim>\<open>AttributeError\<close>.
\<close>

datatype json =
    JNull
  | JBool bool
  | JNum real
  | JStr string
  | JArr "json list"
  | JObj "(string \<times> json) list"

fun truthy :: "json \<Rightarrow> bool" where
  "truthy JNull = False"
| "truthy (JBool b) = b"
| "truthy (JNum x) = (x \<noteq> 0)"
| "truthy (JStr s) = (s \<noteq> [])"
| "truthy (JArr xs) = (xs \<noteq> [])"
| "truthy (JObj kvs) = (kvs \<noteq> [])"

fun py_get :: "json \<Rightarrow> string \<Rightarrow> py_error + json" where
  "py_get (JObj kvs) k = Inr (case map_of kvs k of None \<Rightarrow> JNull | Some v \<Rightarrow> v)"
| "py_get other k = Inl AttributeError"

text \<open>
  What one HTTP request does: the transport raises, or a response arrives with a status and
  a body that \<^verbatim>\<open>await resp.json()\<close> either decodes or rejects with an exception. Every
  request is assumed to complete; the script sets no timeout of its own.
\<close>

datatype response = Response (status: int) (json_body: "py_error + json")

datatype exchange = Raised py_error | Responded response

text \<open>
  The environment of one call of \<^verbatim>\<open>write_key\<close>: the two readings of
  \<^verbatim>\<open>time.perf_counter()\<close> (before the request, and when the response has arrived) and the
  exchange with the leader. The key and the value travel to the store and influence the
  result only through this environment.
\<close>

record write_env =
  t_start :: real
  t_resp :: real
  exchange :: exchange

definition set_quorum :: "exchange \<Rightarrow> bool" where
  "set_quorum x = (case x of Raised e \<Rightarrow> False | Responded resp \<Rightarrow> status resp = 200)"

text \<open>The body of the \<^verbatim>\<open>try\<close> block of \<^verbatim>\<open>write_key\<close>, and the function with its
  \<^verbatim>\<open>except Exception\<close> handler around it.\<close>

definition write_key_try :: "write_env \<Rightarrow> py_error + real" where
  "write_key_try env =
     (case exchange env of
        Raised e \<Rightarrow> Inl e
      | Responded resp \<Rightarrow>
          (let elapsed = t_resp env - t_start env
           in if status resp = 200 then
                bindE (json_body resp) (\<lambda>data.
                bindE (py_get data ''success'') (\<lambda>flag.
                if truthy flag then Inr elapsed else Inr (- 1)))
              else Inr (- 1)))"

definition write_key :: "write_env \<Rightarrow> py_error + real" where
  "write_key env = (case write_key_try env of Inl e \<Rightarrow> Inr (- 1) | Inr r \<Rightarrow> Inr r)"

text \<open>
  The writes the code counts as successful: the status is 200 and the body decodes to an
  object whose \<^verbatim>\<open>success\<close> member is true in Python's sense (\<^const>\<open>truthy\<close>), which
  is the test \<^verbatim>\<open>if data.get("success")\<close>.
\<close>

definition write_successful :: "exchange \<Rightarrow> bool" where
  "write_successful x =
     (case x of
        Raised e \<Rightarrow> False
      | Responded resp \<Rightarrow>
          status resp = 200 \<and>
          (case json_body resp of
             Inr (JObj kvs) \<Rightarrow> (case map_of kvs ''success'' of None \<Rightarrow> False | Some v \<Rightarrow> truthy v)
           | _ \<Rightarrow> False))"

text \<open>
  A successful response in the words of the design document: the transport-level status is
  OK and the body explicitly signals success, that is, the body is an object whose
  \<^verbatim>\<open>success\<close> member is the boolean \<^verbatim>\<open>true\<close>, as in the documented body
  \<^verbatim>\<open>{success: bool}\<close>.
\<close>

definition spec_signals_success :: "exchange \<Rightarrow> bool" where
  "spec_signals_success x =
     (case x of
        Raised e \<Rightarrow> False
      | Responded resp \<Rightarrow>
          status resp = 200 \<and>
          (case json_body resp of
             Inr (JObj kvs) \<Rightarrow> map_of kvs ''success'' = Some (JBool True)
           | _ \<Rightarrow> False))"

definition write_latency :: "write_env \<Rightarrow> real" where
  "write_latency env =
     (if write_successful (exchange env) then t_resp env - t_start env else - 1)"

definition ok_write :: write_env where
  "ok_write = \<lparr>t_start = 0, t_resp = 2,
      exchange = Responded (Response 200 (Inr (JObj [(''success'', JBool True)])))\<rparr>"

text \<open>A write answered with status 200 and the body \<^verbatim>\<open>{"success": "false"}\<close>.\<close>

definition loose_write :: write_env where
  "loose_write = \<lparr>t_start = 0, t_resp = 2,
      exchange = Responded (Response 200 (Inr (JObj [(''success'', JStr ''false'')])))\<rparr>"

definition failed_write :: write_env where
  "failed_write = \<lparr>t_start = 0, t_resp = 3,
      exchange = Responded (Response 500 (Inr (JObj [(''success'', JBool True)])))\<rparr>"

section \<open>The bounded concurrent write driver\<close>

text \<open>
  \<^verbatim>\<open>asyncio.gather\<close> returns the results in the order of the tasks, or raises what a task
  raised. The tasks are built repetition by repetition, key by key. The driver's
  \<open>session\<close> gives every task, by its position in that order, the environment its write
  meets. \<^verbatim>\<open>asyncio.Semaphore\<close> rejects a negative value with \<^verbatim>\<open>ValueError\<close>; with the
  value zero no task ever gets a slot, so the driver does not return (the result
  \<open>None\<close>) unless there is no task at all.
\<close>

fun mapE :: "('a \<Rightarrow> py_error + 'b) \<Rightarrow> 'a list \<Rightarrow> py_error + 'b list" where
  "mapE f [] = Inr []"
| "mapE f (x # xs) = bindE (f x) (\<lambda>y. bindE (mapE f xs) (\<lambda>ys. Inr (y # ys)))"

definition make_tasks :: "string list \<Rightarrow> int \<Rightarrow> (string \<times> nat) list" where
  "make_tasks keys num_writes_per_key =
     concat (map (\<lambda>i. map (\<lambda>key. (key, i)) keys) [0..<nat num_writes_per_key])"

definition run_concurrent_writes ::
  "(nat \<Rightarrow> write_env) \<Rightarrow> string list \<Rightarrow> int \<Rightarrow> int \<Rightarrow> (py_error + real list) option" where
  "run_concurrent_writes session keys num_writes_per_key concurrency =
     (if concurrency < 0 then Some (Inl ValueError)
      else
        (let tasks = make_tasks keys num_writes_per_key
         in if concurrency = 0 \<and> tasks \<noteq> [] then None
            else Some (bindE (mapE (\<lambda>j. write_key (session j)) [0..<length tasks]) (\<lambda>results.
                       Inr (filter (\<lambda>latency. latency \<ge> 0) results)))))"

definition demo_session :: "nat \<Rightarrow> write_env" where
  "demo_session j = (if j = 0 then ok_write else failed_write)"

section \<open>The consistency checker\<close>

text \<open>Decimal rendering of a number, for the labels \<^verbatim>\<open>f"f{i}"\<close> and \<^verbatim>\<open>f"key_{i}"\<close>.\<close>

function str_nat :: "nat \<Rightarrow> string" where
  "str_nat n =
     (if n < 10 then [''0123456789'' ! n]
      else str_nat (n div 10) @ [''0123456789'' ! (n mod 10)])"
  by pat_completeness auto
termination
  by (relation "measure id") auto

declare str_nat.simps [simp del]

text \<open>
  A dump is a Python dict, modelled as the list of its items in iteration order; a dict
  holds every key once. \<^verbatim>\<open>len\<close> is the length of that list, \<^verbatim>\<open>d.keys()\<close> the first
  components, \<^verbatim>\<open>k in d\<close> and \<^verbatim>\<open>d[k]\<close> the lookup \<^const>\<open>map_of\<close>. Equality of
  values is Python's \<^verbatim>\<open>==\<close>. The checker works on the dumps that \<^verbatim>\<open>get_all_data\<close>
  returned for the leader and for each configured follower, in the configured order.
\<close>

record 'k FollowerRecord =
  follower :: string
  keys_count :: nat
  matches_leader :: bool
  matching_count :: nat
  mismatched_values :: nat
  missing_keys :: nat
  mismatched_examples :: "'k list"

record 'k ConsistencyReport =
  leader_keys :: nat
  followers :: "'k FollowerRecord list"

text \<open>One round of the loop over the leader's keys, on the three locals
  \<^verbatim>\<open>matching_count\<close>, \<^verbatim>\<open>mismatched_values\<close> and \<^verbatim>\<open>missing_keys\<close>.\<close>

definition classify_step ::
  "('k \<times> 'v) list \<Rightarrow> ('k \<times> 'v) list \<Rightarrow> 'k \<Rightarrow> nat \<times> 'k list \<times> 'k list
     \<Rightarrow> nat \<times> 'k list \<times> 'k list" where
  "classify_step leader_data follower_data k acc =
     (case acc of (matching, mismatched, missing) \<Rightarrow>
        if map_of follower_data k = None then (matching, mismatched, missing @ [k])
        else if map_of leader_data k = map_of follower_data k
          then (matching + 1, mismatched, missing)
        else (matching, mismatched @ [k], missing))"

definition check_follower ::
  "('k \<times> 'v) list \<Rightarrow> nat \<Rightarrow> ('k \<times> 'v) list \<Rightarrow> 'k FollowerRecord" where
  "check_follower leader_data i follower_data =
     (case fold (classify_step leader_data follower_data) (map fst leader_data) (0, [], []) of
        (matching, mismatched, missing) \<Rightarrow>
          \<lparr>follower = ''f'' @ str_nat i,
           keys_count = length follower_data,
           matches_leader = (length mismatched = 0 \<and> length missing = 0),
           matching_count = matching,
           mismatched_values = length mismatched,
           missing_keys = length missing,
           mismatched_examples = take 3 mismatched\<rparr>)"

definition check_consistency ::
  "('k \<times> 'v) list \<Rightarrow> ('k \<times> 'v) list list \<Rightarrow> 'k ConsistencyReport" where
  "check_consistency leader_data follower_dumps =
     \<lparr>leader_keys = length leader_data,
      followers = map (\<lambda>(i, follower_data). check_follower leader_data i follower_data)
                    (zip [1..<Suc (length follower_dumps)] follower_dumps)\<rparr>"

text \<open>
  The classification in the words of the design document: a key absent from the follower
  is missing; a key present in both dumps is matching when the values are equal and
  mismatched when they differ.
\<close>

datatype key_class = Matching | Mismatched | Missing

definition spec_classify :: "('k \<times> 'v) list \<Rightarrow> ('k \<times> 'v) list \<Rightarrow> 'k \<Rightarrow> key_class" where
  "spec_classify leader_data follower_data k =
     (case map_of follower_data k of
        None \<Rightarrow> Missing
      | Some v \<Rightarrow> (if map_of leader_data k = Some v then Matching else Mismatched))"

section \<open>The campaign orchestrator\<close>

definition NUM_KEYS :: nat where
  "NUM_KEYS = 10"

definition NUM_WRITES_PER_KEY :: int where
  "NUM_WRITES_PER_KEY = 10"

definition CONCURRENT_WRITES :: int where
  "CONCURRENT_WRITES = 10"

definition QUORUM_VALUES :: "int list" where
  "QUORUM_VALUES = [1, 2, 3, 4, 5]"

text \<open>
  What the store does during one step of the sweep: its answer to the \<^verbatim>\<open>/config\<close>
  request, and the environments of the writes of that step. The \<open>world\<close> of a run gives
  the step environment by the position of the step in \<^const>\<open>QUORUM_VALUES\<close>.
\<close>

record step_env =
  config_exchange :: exchange
  writes :: "nat \<Rightarrow> write_env"

text \<open>
  The loop of \<^verbatim>\<open>run_analysis\<close> over the quorum values, with the dict \<^verbatim>\<open>all_stats\<close>
  as accumulator; \<^verbatim>\<open>continue\<close> is the recursive call on the unchanged accumulator.
\<close>

fun sweep ::
  "(nat \<Rightarrow> step_env) \<Rightarrow> string list \<Rightarrow> nat \<Rightarrow> int list \<Rightarrow> (int \<rightharpoonup> LatencyStats)
     \<Rightarrow> (py_error + (int \<rightharpoonup> LatencyStats)) option" where
  "sweep world keys pos [] all_stats = Some (Inr all_stats)"
| "sweep world keys pos (quorum # rest) all_stats =
     (if \<not> set_quorum (config_exchange (world pos)) then
        sweep world keys (Suc pos) rest all_stats
      else
        (case run_concurrent_writes (writes (world pos)) keys
                NUM_WRITES_PER_KEY CONCURRENT_WRITES of
           None \<Rightarrow> None
         | Some (Inl e) \<Rightarrow> Some (Inl e)
         | Some (Inr latencies) \<Rightarrow>
             if latencies \<noteq> [] then
               (case calculate_stats latencies of
                  Inl e \<Rightarrow> Some (Inl e)
                | Inr stats \<Rightarrow> sweep world keys (Suc pos) rest (all_stats(quorum \<mapsto> stats)))
             else sweep world keys (Suc pos) rest all_stats))"

definition campaign_keys :: "string list" where
  "campaign_keys = map (\<lambda>i. ''key_'' @ str_nat i) [0..<NUM_KEYS]"

text \<open>
  After the loop \<^verbatim>\<open>run_analysis\<close> awaits \<^verbatim>\<open>check_consistency\<close> and prints its report,
  calls \<^verbatim>\<open>plot_results\<close> when \<^verbatim>\<open>all_stats\<close> is not empty, and only then returns
  \<^verbatim>\<open>all_stats\<close>. Neither call has a handler around it, and both can raise: the
  checker, for one, when the leader answers \<^verbatim>\<open>/dump\<close> with a JSON array, which has no
  \<^verbatim>\<open>keys\<close>; the plot when the figure cannot be written. Their results do not enter
  the returned value, so the environment of this part of a run is whether each of the two
  raises, and what.
\<close>

record tail_env =
  check_consistency_raises :: "py_error option"
  plot_results_raises :: "py_error option"

definition run_analysis ::
  "(nat \<Rightarrow> step_env) \<Rightarrow> tail_env \<Rightarrow> (py_error + (int \<rightharpoonup> LatencyStats)) option" where
  "run_analysis world tail =
     (let keys = campaign_keys
      in case sweep world keys 0 QUORUM_VALUES Map.empty of
           None \<Rightarrow> None
         | Some (Inl e) \<Rightarrow> Some (Inl e)
         | Some (Inr all_stats) \<Rightarrow>
             (case check_consistency_raises tail of
                Some e \<Rightarrow> Some (Inl e)
              | None \<Rightarrow>
                  if all_stats \<noteq> Map.empty then
                    (case plot_results_raises tail of
                       Some e \<Rightarrow> Some (Inl e)
                     | None \<Rightarrow> Some (Inr all_stats))
                  else Some (Inr all_stats)))"

text \<open>The entry one step of the sweep contributes to the results, if any.\<close>

definition step_entry :: "(nat \<Rightarrow> step_env) \<Rightarrow> string list \<Rightarrow> nat \<Rightarrow> LatencyStats option" where
  "step_entry world keys pos =
     (if set_quorum (config_exchange (world pos)) then
        (case run_concurrent_writes (writes (world pos)) keys
                NUM_WRITES_PER_KEY CONCURRENT_WRITES of
           Some (Inr latencies) \<Rightarrow>
             (if latencies \<noteq> [] then
                (case calculate_stats latencies of Inr stats \<Rightarrow> Some stats | Inl e \<Rightarrow> None)
              else None)
         | _ \<Rightarrow> None)
      else None)"

text \<open>A run in which the first quorum request fails, every write of the third step is
  answered with status 500, and every other write succeeds after one second.\<close>

definition demo_world :: "nat \<Rightarrow> step_env" where
  "demo_world j =
     \<lparr>config_exchange =
        (if j = 0 then Raised ClientError else Responded (Response 200 (Inr JNull))),
      writes = (\<lambda>i. \<lparr>t_start = 0, t_resp = 1,
                       exchange = Responded
                         (Response (if j = 2 then 500 else 200)
                            (Inr (JObj [(''success'', JBool True)])))\<rparr>)\<rparr>"

text \<open>A tail in which nothing raises, and one in which the consistency check raises.\<close>

definition quiet_tail :: tail_env where
  "quiet_tail = \<lparr>check_consistency_raises = None, plot_results_raises = None\<rparr>"

definition broken_tail :: tail_env where
  "broken_tail = \<lparr>check_consistency_raises = Some AttributeError, plot_results_raises = None\<rparr>"

section \<open>Scheduling of the bounded writes\<close>

text \<open>
  The tasks of \<^verbatim>\<open>run_concurrent_writes\<close> run interleaved on one event loop and share one
  \<^verbatim>\<open>asyncio.Semaphore\<close>. A task is the coroutine \<^verbatim>\<open>bounded_write\<close>: it enters
  \<^verbatim>\<open>async with semaphore\<close> (\<open>Acquire\<close>), and inside it runs \<^verbatim>\<open>write_key\<close>, which reads
  the clock (\<open>StartTimer\<close>), awaits the request (\<open>AwaitPost\<close>), computes \<^verbatim>\<open>elapsed\<close>
  (\<open>StopTimer\<close>), decodes the body (\<open>ReadBody\<close>) and returns; leaving the
  \<^verbatim>\<open>async with\<close> gives the slot back (\<open>Release\<close>). An exception in the request or in
  the decoding jumps to the handler, which returns the failure marker, so the rest of
  \<^verbatim>\<open>write_key\<close> is skipped and the measurement abandoned. The semaphore lets a task
  acquire only while its counter is positive, and counts down on acquire and up on release.
\<close>

datatype instr = Acquire | StartTimer | AwaitPost | StopTimer | ReadBody | Release

definition bounded_write :: "instr list" where
  "bounded_write = [Acquire, StartTimer, AwaitPost, StopTimer, ReadBody, Release]"

record task =
  todo :: "instr list"
  has_slot :: bool
  timing :: bool

record sched =
  permits :: nat
  tasks :: "task list"

definition handler :: "instr list \<Rightarrow> instr list" where
  "handler rest = dropWhile (\<lambda>i. i \<noteq> Release) rest"

inductive exec :: "nat \<Rightarrow> task \<Rightarrow> nat \<Rightarrow> task \<Rightarrow> bool" where
  acquire: "todo tk = Acquire # rest \<Longrightarrow> 0 < p \<Longrightarrow>
     exec p tk (p - 1) (tk\<lparr>todo := rest, has_slot := True\<rparr>)"
| start_timer: "todo tk = StartTimer # rest \<Longrightarrow>
     exec p tk p (tk\<lparr>todo := rest, timing := True\<rparr>)"
| post_responds: "todo tk = AwaitPost # rest \<Longrightarrow>
     exec p tk p (tk\<lparr>todo := rest\<rparr>)"
| post_raises: "todo tk = AwaitPost # rest \<Longrightarrow>
     exec p tk p (tk\<lparr>todo := handler rest, timing := False\<rparr>)"
| stop_timer: "todo tk = StopTimer # rest \<Longrightarrow>
     exec p tk p (tk\<lparr>todo := rest, timing := False\<rparr>)"
| body_read: "todo tk = ReadBody # rest \<Longrightarrow>
     exec p tk p (tk\<lparr>todo := rest\<rparr>)"
| body_raises: "todo tk = ReadBody # rest \<Longrightarrow>
     exec p tk p (tk\<lparr>todo := handler rest\<rparr>)"
| release: "todo tk = Release # rest \<Longrightarrow>
     exec p tk (p + 1) (tk\<lparr>todo := rest, has_slot := False\<rparr>)"

inductive sched_step :: "sched \<Rightarrow> sched \<Rightarrow> bool" where
  run_task: "i < length (tasks s) \<Longrightarrow> exec (permits s) (tasks s ! i) p' tk' \<Longrightarrow>
     sched_step s \<lparr>permits = p', tasks = (tasks s)[i := tk']\<rparr>"

definition fresh_task :: task where
  "fresh_task = \<lparr>todo = bounded_write, has_slot = False, timing = False\<rparr>"

definition initial :: "nat \<Rightarrow> nat \<Rightarrow> sched" where
  "initial c t = \<lparr>permits = c, tasks = replicate t fresh_task\<rparr>"

inductive reachable :: "nat \<Rightarrow> nat \<Rightarrow> sched \<Rightarrow> bool" where
  start: "reachable c t (initial c t)"
| later: "reachable c t s \<Longrightarrow> sched_step s s' \<Longrightarrow> reachable c t s'"

definition in_timed_region :: "sched \<Rightarrow> nat" where
  "in_timed_region s = length (filter timing (tasks s))"

definition holding_slot :: "sched \<Rightarrow> nat" where
  "holding_slot s = length (filter has_slot (tasks s))"

text \<open>The configurations a task passes through, and the slots it holds.\<close>

definition task_ok :: "task \<Rightarrow> bool" where
  "task_ok tk \<longleftrightarrow>
     (todo tk, has_slot tk, timing tk) \<in>
       {(bounded_write, False, False),
        ([StartTimer, AwaitPost, StopTimer, ReadBody, Release], True, False),
        ([AwaitPost, StopTimer, ReadBody, Release], True, True),
        ([StopTimer, ReadBody, Release], True, True),
        ([ReadBody, Release], True, False),
        ([Release], True, False),
        ([], False, False)}"

definition slot_count :: "task \<Rightarrow> nat" where
  "slot_count tk = (if has_slot tk then 1 else 0)"

text \<open>With one slot and two tasks: the first task holds the slot and awaits its request,
  the second still waits for a slot.\<close>

definition demo_sched :: sched where
  "demo_sched =
     \<lparr>permits = 0,
      tasks = [\<lparr>todo = [AwaitPost, StopTimer, ReadBody, Release],
               has_slot = True, timing = True\<rparr>,
              fresh_task]\<rparr>"

section \<open>Properties of the statistics aggregator\<close>

text \<open>
  Claim C4. On the empty latency sequence the aggregator returns normally, and the record
  it returns has all six fields (mean, median, p95, p99, min, max) equal to zero.
\<close>

theorem calculate_stats_empty:
  "calculate_stats [] =
     Inr \<lparr>mean = 0, median = 0, p95 = 0, p99 = 0, min_val = 0, max_val = 0\<rparr>"
  by (simp add: calculate_stats_def)

subsection \<open>The percentile indices\<close>

lemma floor_nat_ratio:
  "\<lfloor>real n * (real a / real b)\<rfloor> = int ((a * n) div b)"
proof -
  have "real n * (real a / real b) = of_int (int (a * n)) / of_int (int b)"
    by simp
  then have "\<lfloor>real n * (real a / real b)\<rfloor> = int (a * n) div int b"
    by (simp only: floor_divide_of_int_eq)
  then show ?thesis
    by (simp add: zdiv_int)
qed

lemma pct_index_95: "pct_index n 0.95 = int ((95 * n) div 100)"
  using floor_nat_ratio [of n 95 100] by (simp add: pct_index_def py_int_def)

lemma pct_index_99: "pct_index n 0.99 = int ((99 * n) div 100)"
  using floor_nat_ratio [of n 99 100] by (simp add: pct_index_def py_int_def)

subsection \<open>What the aggregator returns on a non-empty sample\<close>

lemma py_index_in_range:
  "i < length xs \<Longrightarrow> py_index xs (int i) = Inr (xs ! i)"
  by (simp add: py_index_def)

lemma py_min_Min: "xs \<noteq> [] \<Longrightarrow> py_min xs = Inr (Min (set xs))"
  by (cases xs) (simp_all add: Min.set_eq_fold [symmetric])

lemma py_max_Max: "xs \<noteq> [] \<Longrightarrow> py_max xs = Inr (Max (set xs))"
  by (cases xs) (simp_all add: Max.set_eq_fold [symmetric])

lemma statistics_median_nonempty:
  assumes "xs \<noteq> []"
  shows "statistics_median xs = Inr (median_of xs)"
proof -
  let ?n = "length xs"
  let ?s = "sort xs"
  have n: "0 < ?n" using assms by simp
  have len: "?s \<noteq> []"
  proof
    assume "?s = []"
    then have "length ?s = 0" by simp
    then show False using n by simp
  qed
  have a: "py_index ?s (int (?n div 2)) = Inr (?s ! (?n div 2))"
    using n by (intro py_index_in_range) simp
  show ?thesis
  proof (cases "?n mod 2 = 1")
    case True
    then show ?thesis
      using len a by (simp add: statistics_median_def median_of_def Let_def)
  next
    case False
    then have "2 \<le> ?n" using n by presburger
    then have e: "int (?n div 2) - 1 = int (?n div 2 - 1)"
      by linarith
    have "?n div 2 - 1 < length ?s"
      using n by (simp add: less_imp_diff_less)
    then have b: "py_index ?s (int (?n div 2) - 1) = Inr (?s ! (?n div 2 - 1))"
      unfolding e by (rule py_index_in_range)
    show ?thesis
      unfolding statistics_median_def median_of_def Let_def length_sort a b bindE_def
      using False n by simp
  qed
qed

lemma calculate_stats_nonempty:
  assumes "xs \<noteq> []"
  shows "calculate_stats xs =
     Inr \<lparr>mean = sum_list xs / real (length xs), median = median_of xs,
          p95 = sort xs ! ((95 * length xs) div 100),
          p99 = sort xs ! ((99 * length xs) div 100),
          min_val = Min (set xs), max_val = Max (set xs)\<rparr>"
proof -
  let ?n = "length xs"
  have n: "0 < ?n" using assms by simp
  have i95: "(95 * ?n) div 100 < length (sort xs)"
    using n by (simp add: div_less_iff_less_mult)
  have i99: "(99 * ?n) div 100 < length (sort xs)"
    using n by (simp add: div_less_iff_less_mult)
  have z: "py_index (sort xs) 0 = Inr (sort xs ! 0)"
    using n py_index_in_range [of 0 "sort xs"] by simp
  have one: "\<not> 1 < ?n \<Longrightarrow> (95 * ?n) div 100 = 0 \<and> (99 * ?n) div 100 = 0"
    using n by (cases "?n = 1") simp_all
  have m: "statistics_mean xs = Inr (sum_list xs / real ?n)"
    using n by (simp add: statistics_mean_def)
  have q95: "(if 1 < ?n then py_index (sort xs) (pct_index ?n 0.95)
              else py_index (sort xs) 0) = Inr (sort xs ! ((95 * ?n) div 100))"
    using one z by (simp only: pct_index_95 py_index_in_range [OF i95] split: if_split) simp
  have q99: "(if 1 < ?n then py_index (sort xs) (pct_index ?n 0.99)
              else py_index (sort xs) 0) = Inr (sort xs ! ((99 * ?n) div 100))"
    using one z by (simp only: pct_index_99 py_index_in_range [OF i99] split: if_split) simp
  show ?thesis
    unfolding calculate_stats_def Let_def length_sort q95 q99 m
      statistics_median_nonempty [OF assms] py_min_Min [OF assms] py_max_Max [OF assms]
    using assms by (simp add: bindE_def)
qed

subsection \<open>Order of the statistics\<close>

lemma sort_nth_bounds:
  fixes xs :: "real list"
  assumes "i < length xs"
  shows "Min (set xs) \<le> sort xs ! i" and "sort xs ! i \<le> Max (set xs)"
proof -
  have "sort xs ! i \<in> set (sort xs)"
    using assms by (intro nth_mem) simp
  then have m: "sort xs ! i \<in> set xs" by simp
  show "Min (set xs) \<le> sort xs ! i" using m by (intro Min_le) simp_all
  show "sort xs ! i \<le> Max (set xs)" using m by (intro Max_ge) simp_all
qed

lemma sum_list_lower:
  fixes xs :: "real list"
  shows "(\<And>x. x \<in> set xs \<Longrightarrow> a \<le> x) \<Longrightarrow> real (length xs) * a \<le> sum_list xs"
  by (induction xs) (auto simp: algebra_simps add_mono)

lemma sum_list_upper:
  fixes xs :: "real list"
  shows "(\<And>x. x \<in> set xs \<Longrightarrow> x \<le> b) \<Longrightarrow> sum_list xs \<le> real (length xs) * b"
  by (induction xs) (auto simp: algebra_simps add_mono)

lemma mean_bounds:
  fixes xs :: "real list"
  assumes "xs \<noteq> []"
  shows "Min (set xs) \<le> sum_list xs / real (length xs)"
    and "sum_list xs / real (length xs) \<le> Max (set xs)"
proof -
  have n: "0 < real (length xs)" using assms by simp
  have "real (length xs) * Min (set xs) \<le> sum_list xs"
    by (rule sum_list_lower) simp
  then show "Min (set xs) \<le> sum_list xs / real (length xs)"
    using n by (simp add: pos_le_divide_eq mult.commute)
  have "sum_list xs \<le> real (length xs) * Max (set xs)"
    by (rule sum_list_upper) simp
  then show "sum_list xs / real (length xs) \<le> Max (set xs)"
    using n by (simp add: pos_divide_le_eq mult.commute)
qed

lemma median_bounds:
  assumes "xs \<noteq> []"
  shows "Min (set xs) \<le> median_of xs" and "median_of xs \<le> Max (set xs)"
proof -
  let ?n = "length xs"
  have n: "0 < ?n" using assms by simp
  have i: "?n div 2 < ?n" using n by simp
  have j: "?n div 2 - 1 < ?n" using n by (simp add: less_imp_diff_less)
  note bi = sort_nth_bounds [OF i] and bj = sort_nth_bounds [OF j]
  show "Min (set xs) \<le> median_of xs"
    using bi(1) bj(1) by (simp add: median_of_def Let_def)
  show "median_of xs \<le> Max (set xs)"
    using bi(2) bj(2) by (simp add: median_of_def Let_def)
qed

lemma pct_order:
  fixes xs :: "real list"
  assumes "xs \<noteq> []"
  shows "sort xs ! ((95 * length xs) div 100) \<le> sort xs ! ((99 * length xs) div 100)"
proof -
  have "(99 * length xs) div 100 < length (sort xs)"
    using assms by (simp add: div_less_iff_less_mult)
  moreover have "(95 * length xs) div 100 \<le> (99 * length xs) div 100"
    by (intro div_le_mono) simp
  ultimately show ?thesis
    by (intro sorted_nth_mono) simp_all
qed

text \<open>
  Claim C3. For every latency sample of size \<open>n \<ge> 1\<close> the aggregator returns a record with
  min \<open>\<le>\<close> median \<open>\<le>\<close> max, min \<open>\<le>\<close> mean \<open>\<le>\<close> max and p99 \<open>\<le>\<close> max, and with
  p95 \<open>\<le>\<close> p99 when \<open>n \<ge> 2\<close>; for a sample of one value, mean, median, p95, p99, min and
  max all equal that value.
\<close>

theorem calculate_stats_ordering:
  assumes "latencies \<noteq> []"
  shows "\<exists>s. calculate_stats latencies = Inr s \<and>
           min_val s \<le> median s \<and> median s \<le> max_val s \<and>
           min_val s \<le> mean s \<and> mean s \<le> max_val s \<and>
           p99 s \<le> max_val s \<and>
           (2 \<le> length latencies \<longrightarrow> p95 s \<le> p99 s) \<and>
           (\<forall>x. latencies = [x] \<longrightarrow>
              mean s = x \<and> median s = x \<and> p95 s = x \<and> p99 s = x \<and>
              min_val s = x \<and> max_val s = x)"
proof -
  let ?n = "length latencies"
  have i99: "(99 * ?n) div 100 < ?n"
    using assms by (simp add: div_less_iff_less_mult)
  have single: "\<And>x. latencies = [x] \<Longrightarrow> median_of latencies = x"
    by (simp add: median_of_def)
  show ?thesis
    unfolding calculate_stats_nonempty [OF assms]
    using median_bounds [OF assms] mean_bounds [OF assms]
      sort_nth_bounds(2) [OF i99] pct_order [OF assms] single
    by auto
qed


subsection \<open>Percentile ranks\<close>

lemma ceiling_nat_ratio:
  assumes "0 < b" and "\<not> b dvd a * n"
  shows "\<lceil>real n * (real a / real b)\<rceil> = int ((a * n) div b) + 1"
proof -
  let ?x = "real n * (real a / real b)"
  have fl: "\<lfloor>?x\<rfloor> = int ((a * n) div b)"
    by (rule floor_nat_ratio)
  have "?x \<noteq> of_int \<lfloor>?x\<rfloor>"
  proof
    assume "?x = of_int \<lfloor>?x\<rfloor>"
    then have "real n * real a / real b = real ((a * n) div b)"
      unfolding fl by simp
    then have "real n * real a = real ((a * n) div b) * real b"
      using assms(1) by (simp add: divide_eq_eq)
    then have "real (a * n) = real (b * ((a * n) div b))"
      by (simp add: mult.commute)
    then have "a * n = b * ((a * n) div b)"
      by (simp only: of_nat_eq_iff)
    then have "b dvd a * n"
      by (rule dvdI)
    with assms(2) show False ..
  qed
  then have "\<lceil>?x\<rceil> = \<lfloor>?x\<rfloor> + 1"
    by (simp only: ceiling_altdef if_False)
  then show ?thesis
    unfolding fl .
qed

lemma nearest_rank_95:
  assumes "\<not> 20 dvd n"
  shows "nat \<lceil>real n * 0.95\<rceil> = (95 * n) div 100 + 1"
proof -
  have "\<not> 100 dvd 95 * n"
  proof
    assume "100 dvd 95 * n"
    then obtain k where "95 * n = 100 * k" ..
    then have "n = 20 * (n - k)" by arith
    then have "20 dvd n" by (rule dvdI)
    with assms show False ..
  qed
  then have "\<lceil>real n * (real 95 / real 100)\<rceil> = int ((95 * n) div 100) + 1"
    by (intro ceiling_nat_ratio) simp_all
  then have "\<lceil>real n * 0.95\<rceil> = int ((95 * n) div 100 + 1)"
    by simp
  then show ?thesis
    by (simp only: nat_int)
qed

lemma nearest_rank_99:
  assumes "\<not> 100 dvd n"
  shows "nat \<lceil>real n * 0.99\<rceil> = (99 * n) div 100 + 1"
proof -
  have "\<not> 100 dvd 99 * n"
  proof
    assume "100 dvd 99 * n"
    then obtain k where "99 * n = 100 * k" ..
    then have "n = 100 * (n - k)" by arith
    then have "100 dvd n" by (rule dvdI)
    with assms show False ..
  qed
  then have "\<lceil>real n * (real 99 / real 100)\<rceil> = int ((99 * n) div 100) + 1"
    by (intro ceiling_nat_ratio) simp_all
  then have "\<lceil>real n * 0.99\<rceil> = int ((99 * n) div 100 + 1)"
    by simp
  then show ?thesis
    by (simp only: nat_int)
qed

lemma floor_95: "nat \<lfloor>real n * 0.95\<rfloor> = (95 * n) div 100"
  using floor_nat_ratio [of n 95 100] by simp

lemma floor_99: "nat \<lfloor>real n * 0.99\<rfloor> = (99 * n) div 100"
  using floor_nat_ratio [of n 99 100] by simp

lemma code_rank_95: "rank_value xs (nat \<lfloor>real (length xs) * 0.95\<rfloor> + 1) = sort xs ! ((95 * length xs) div 100)"
  unfolding rank_value_def floor_95 by simp

lemma code_rank_99: "rank_value xs (nat \<lfloor>real (length xs) * 0.99\<rfloor> + 1) = sort xs ! ((99 * length xs) div 100)"
  unfolding rank_value_def floor_99 by simp

lemma nearest_rank_95_eq:
  assumes h: "\<not> 20 dvd length xs"
  shows "spec_nearest_rank xs 0.95 = sort xs ! ((95 * length xs) div 100)"
proof -
  have "nat \<lceil>real (length xs) * 0.95\<rceil> - 1 = (95 * length xs) div 100"
    unfolding nearest_rank_95 [OF h] by (rule diff_add_inverse2)
  then show ?thesis
    unfolding spec_nearest_rank_def rank_value_def by (rule arg_cong)
qed

lemma nearest_rank_99_eq:
  assumes h: "\<not> 100 dvd length xs"
  shows "spec_nearest_rank xs 0.99 = sort xs ! ((99 * length xs) div 100)"
proof -
  have "nat \<lceil>real (length xs) * 0.99\<rceil> - 1 = (99 * length xs) div 100"
    unfolding nearest_rank_99 [OF h] by (rule diff_add_inverse2)
  then show ?thesis
    unfolding spec_nearest_rank_def rank_value_def by (rule arg_cong)
qed

lemma ceiling_95_multiple:
  assumes "20 dvd n"
  shows "nat \<lceil>real n * 0.95\<rceil> = (95 * n) div 100"
proof -
  from assms obtain k where k: "n = 20 * k" ..
  have "real n * 0.95 = real (19 * k)"
    unfolding k by simp
  then have "nat \<lceil>real n * 0.95\<rceil> = 19 * k"
    by (simp only: ceiling_of_nat nat_int)
  also have "19 * k = (95 * n) div 100"
    unfolding k by simp
  finally show ?thesis .
qed

lemma ceiling_99_multiple:
  assumes "100 dvd n"
  shows "nat \<lceil>real n * 0.99\<rceil> = (99 * n) div 100"
proof -
  from assms obtain k where k: "n = 100 * k" ..
  have "real n * 0.99 = real (99 * k)"
    unfolding k by simp
  then have "nat \<lceil>real n * 0.99\<rceil> = 99 * k"
    by (simp only: ceiling_of_nat nat_int)
  also have "99 * k = (99 * n) div 100"
    unfolding k by simp
  finally show ?thesis .
qed

lemma above_rank_95_eq:
  assumes h: "20 dvd length xs"
  shows "rank_value xs (nat \<lceil>real (length xs) * 0.95\<rceil> + 1) =
         sort xs ! ((95 * length xs) div 100)"
  unfolding rank_value_def ceiling_95_multiple [OF h] by simp

lemma above_rank_99_eq:
  assumes h: "100 dvd length xs"
  shows "rank_value xs (nat \<lceil>real (length xs) * 0.99\<rceil> + 1) =
         sort xs ! ((99 * length xs) div 100)"
  unfolding rank_value_def ceiling_99_multiple [OF h] by simp

text \<open>
  Claim C1, as the code has it. For every non-empty latency sample of size \<open>n\<close>, p95 and
  p99 are the values at the 1-indexed ranks \<open>\<lfloor>n \<cdot> 0.95\<rfloor> + 1\<close> and \<open>\<lfloor>n \<cdot> 0.99\<rfloor> + 1\<close> of
  the ascending-sorted sample (the 0-indexed positions \<open>int(n * 0.95)\<close> and
  \<open>int(n * 0.99)\<close>). This is the nearest rank \<open>\<lceil>n \<cdot> p\<rceil>\<close> whenever \<open>n \<cdot> p\<close> is not an
  integer, that is, when \<open>n\<close> is not a multiple of 20 for p95 and not a multiple of 100 for
  p99, and the rank after the nearest rank otherwise. For a sample of size 1 both equal the
  sole value.
\<close>

theorem calculate_stats_percentile_rank:
  assumes "latencies \<noteq> []"
  shows "\<exists>s. calculate_stats latencies = Inr s \<and>
           p95 s = rank_value latencies (nat \<lfloor>real (length latencies) * 0.95\<rfloor> + 1) \<and>
           p99 s = rank_value latencies (nat \<lfloor>real (length latencies) * 0.99\<rfloor> + 1) \<and>
           (\<not> 20 dvd length latencies \<longrightarrow> p95 s = spec_nearest_rank latencies 0.95) \<and>
           (\<not> 100 dvd length latencies \<longrightarrow> p99 s = spec_nearest_rank latencies 0.99) \<and>
           (20 dvd length latencies \<longrightarrow>
              p95 s = rank_value latencies (nat \<lceil>real (length latencies) * 0.95\<rceil> + 1)) \<and>
           (100 dvd length latencies \<longrightarrow>
              p99 s = rank_value latencies (nat \<lceil>real (length latencies) * 0.99\<rceil> + 1)) \<and>
           (\<forall>x. latencies = [x] \<longrightarrow> p95 s = x \<and> p99 s = x)"
proof -
  let ?s = "\<lparr>mean = sum_list latencies / real (length latencies),
            median = median_of latencies,
            p95 = sort latencies ! ((95 * length latencies) div 100),
            p99 = sort latencies ! ((99 * length latencies) div 100),
            min_val = Min (set latencies), max_val = Max (set latencies)\<rparr>"
  have r: "calculate_stats latencies = Inr ?s"
    by (rule calculate_stats_nonempty [OF assms])
  have a: "p95 ?s = rank_value latencies (nat \<lfloor>real (length latencies) * 0.95\<rfloor> + 1)"
    unfolding code_rank_95 by simp
  have b: "p99 ?s = rank_value latencies (nat \<lfloor>real (length latencies) * 0.99\<rfloor> + 1)"
    unfolding code_rank_99 by simp
  have c: "\<not> 20 dvd length latencies \<longrightarrow> p95 ?s = spec_nearest_rank latencies 0.95"
  proof
    assume h: "\<not> 20 dvd length latencies"
    show "p95 ?s = spec_nearest_rank latencies 0.95"
      unfolding nearest_rank_95_eq [OF h] by simp
  qed
  have d: "\<not> 100 dvd length latencies \<longrightarrow> p99 ?s = spec_nearest_rank latencies 0.99"
  proof
    assume h: "\<not> 100 dvd length latencies"
    show "p99 ?s = spec_nearest_rank latencies 0.99"
      unfolding nearest_rank_99_eq [OF h] by simp
  qed
  have e: "\<forall>x. latencies = [x] \<longrightarrow> p95 ?s = x \<and> p99 ?s = x"
    by simp
  have f: "20 dvd length latencies \<longrightarrow>
      p95 ?s = rank_value latencies (nat \<lceil>real (length latencies) * 0.95\<rceil> + 1)"
  proof
    assume h: "20 dvd length latencies"
    show "p95 ?s = rank_value latencies (nat \<lceil>real (length latencies) * 0.95\<rceil> + 1)"
      unfolding above_rank_95_eq [OF h] by simp
  qed
  have g: "100 dvd length latencies \<longrightarrow>
      p99 ?s = rank_value latencies (nat \<lceil>real (length latencies) * 0.99\<rceil> + 1)"
  proof
    assume h: "100 dvd length latencies"
    show "p99 ?s = rank_value latencies (nat \<lceil>real (length latencies) * 0.99\<rceil> + 1)"
      unfolding above_rank_99_eq [OF h] by simp
  qed
  from r a b c d e f g show ?thesis by blast
qed


lemma sort_sample20: "sort sample20 = sample20"
  unfolding sample20_def by (rule sorted_sort_id) simp

text \<open>
  Claim C1, as stated, fails when \<open>n \<cdot> p\<close> is an integer. On the sample \<open>1, \<dots>, 20\<close> the
  aggregator's p95 is the element at position \<open>int(20 * 0.95) = 19\<close>, the largest value 20,
  while the value at the nearest rank \<open>\<lceil>20 \<cdot> 0.95\<rceil> = 19\<close> is 19.
\<close>

theorem nearest_rank_counterexample:
  "calculate_stats sample20 =
     Inr \<lparr>mean = 21 / 2, median = 21 / 2, p95 = 20, p99 = 20, min_val = 1, max_val = 20\<rparr>
   \<and> spec_nearest_rank sample20 0.95 = 19"
proof -
  have ne: "sample20 \<noteq> []" by (simp add: sample20_def)
  have len: "length sample20 = 20" by (simp add: sample20_def)
  have nr: "spec_nearest_rank sample20 0.95 = 19"
    unfolding spec_nearest_rank_def rank_value_def sort_sample20 len
    by (simp add: sample20_def)
  have md: "median_of sample20 = 21 / 2"
    unfolding median_of_def Let_def sort_sample20 len by (simp add: sample20_def)
  have i95: "sort sample20 ! ((95 * length sample20) div 100) = 20"
    unfolding sort_sample20 len by (simp add: sample20_def)
  have i99: "sort sample20 ! ((99 * length sample20) div 100) = 20"
    unfolding sort_sample20 len by (simp add: sample20_def)
  have mn: "Min (set sample20) = 1" by (simp add: sample20_def)
  have mx: "Max (set sample20) = 20" by (simp add: sample20_def)
  have av: "sum_list sample20 / real (length sample20) = 21 / 2"
    unfolding len by (simp add: sample20_def)
  show ?thesis
    unfolding calculate_stats_nonempty [OF ne] md i95 i99 mn mx av nr by simp
qed


text \<open>
  The example of the script's explanation of the metrics (99 requests of 10 ms and one of
  1000 ms; it gives the median and P95 as 10 ms and P99 as 1000 ms) is what the aggregator
  computes, while the value at the nearest rank \<open>\<lceil>100 \<cdot> 0.99\<rceil> = 99\<close> is 10 ms.
\<close>

lemma outlier_sample_stats:
  "calculate_stats outlier_sample =
     Inr \<lparr>mean = 199 / 10, median = 10, p95 = 10, p99 = 1000, min_val = 10, max_val = 1000\<rparr>
   \<and> spec_nearest_rank outlier_sample 0.99 = 10"
proof -
  have ne: "outlier_sample \<noteq> []" by (simp add: outlier_sample_def)
  have len: "length outlier_sample = 100" by (simp add: outlier_sample_def)
  have "sorted outlier_sample"
    by (simp add: outlier_sample_def sorted_append)
  then have s: "sort outlier_sample = outlier_sample"
    by (rule sorted_sort_id)
  have nth: "outlier_sample ! i = (if i < 99 then 10 else 1000)" if "i < 100" for i
    using that by (auto simp: outlier_sample_def nth_append)
  have nr: "spec_nearest_rank outlier_sample 0.99 = 10"
    unfolding spec_nearest_rank_def rank_value_def s len by (simp add: nth)
  have md: "median_of outlier_sample = 10"
    unfolding median_of_def Let_def s len by (simp add: nth)
  have i95: "sort outlier_sample ! ((95 * length outlier_sample) div 100) = 10"
    unfolding s len by (simp add: nth)
  have i99: "sort outlier_sample ! ((99 * length outlier_sample) div 100) = 1000"
    unfolding s len by (simp add: nth)
  have st: "set outlier_sample = {10, 1000}"
    by (auto simp: outlier_sample_def)
  have mn: "Min (set outlier_sample) = 10" unfolding st by simp
  have mx: "Max (set outlier_sample) = 1000" unfolding st by simp
  have av: "sum_list outlier_sample / real (length outlier_sample) = 199 / 10"
    unfolding len by (simp add: outlier_sample_def sum_list_replicate)
  show ?thesis
    unfolding calculate_stats_nonempty [OF ne] md i95 i99 mn mx av nr by simp
qed

text \<open>
  Claim C10. The aggregator returns a record on every list of latencies, and for every
  non-empty sample of size \<open>n\<close> the indices \<open>int(n * 0.95)\<close> and \<open>int(n * 0.99)\<close> are
  nonnegative and smaller than \<open>n\<close>, so that indexing the sorted sample stays in bounds.
\<close>

theorem calculate_stats_total:
  "(\<exists>s. calculate_stats latencies = Inr s) \<and>
   (latencies \<noteq> [] \<longrightarrow>
      0 \<le> pct_index (length latencies) 0.95 \<and>
      pct_index (length latencies) 0.95 < int (length latencies) \<and>
      0 \<le> pct_index (length latencies) 0.99 \<and>
      pct_index (length latencies) 0.99 < int (length latencies))"
proof (cases "latencies = []")
  case True
  then show ?thesis by (simp add: calculate_stats_def)
next
  case False
  then have "(95 * length latencies) div 100 < length latencies"
    and "(99 * length latencies) div 100 < length latencies"
    by (simp_all add: div_less_iff_less_mult)
  then have "0 \<le> pct_index (length latencies) 0.95 \<and>
      pct_index (length latencies) 0.95 < int (length latencies) \<and>
      0 \<le> pct_index (length latencies) 0.99 \<and>
      pct_index (length latencies) 0.99 < int (length latencies)"
    unfolding pct_index_95 pct_index_99 by simp
  moreover have "\<exists>s. calculate_stats latencies = Inr s"
    unfolding calculate_stats_nonempty [OF False] by blast
  ultimately show ?thesis by blast
qed

theorem calculate_stats_ordering_witness:
  "[3, 1, 2 :: real] \<noteq> [] \<and> 2 \<le> length [3, 1, 2 :: real] \<and>
   (\<exists>s. calculate_stats [3, 1, 2] = Inr s \<and>
        min_val s \<le> median s \<and> median s \<le> max_val s \<and>
        min_val s \<le> mean s \<and> mean s \<le> max_val s \<and> p99 s \<le> max_val s \<and> p95 s \<le> p99 s) \<and>
   (\<exists>s. calculate_stats [7] = Inr s \<and> mean s = 7 \<and> median s = 7 \<and>
        p95 s = 7 \<and> p99 s = 7 \<and> min_val s = 7 \<and> max_val s = 7)"
proof -
  have a: "[3, 1, 2 :: real] \<noteq> []" and b: "[7 :: real] \<noteq> []" by simp_all
  have c: "2 \<le> length [3, 1, 2 :: real]" by simp
  from calculate_stats_ordering [OF a] c calculate_stats_ordering [OF b] a
  show ?thesis by blast
qed

theorem calculate_stats_percentile_rank_witness:
  "[3, 1, 2 :: real] \<noteq> [] \<and> \<not> 20 dvd length [3, 1, 2 :: real] \<and>
   \<not> 100 dvd length [3, 1, 2 :: real] \<and>
   (\<exists>s. calculate_stats [3, 1, 2] = Inr s \<and>
        p95 s = spec_nearest_rank [3, 1, 2] 0.95 \<and> p99 s = spec_nearest_rank [3, 1, 2] 0.99) \<and>
   (\<exists>s. calculate_stats [7] = Inr s \<and> p95 s = 7 \<and> p99 s = 7) \<and>
   sample20 \<noteq> [] \<and> 20 dvd length sample20 \<and>
   (\<exists>s. calculate_stats sample20 = Inr s \<and>
        p95 s = rank_value sample20 (nat \<lceil>real (length sample20) * 0.95\<rceil> + 1)) \<and>
   outlier_sample \<noteq> [] \<and> 100 dvd length outlier_sample \<and>
   (\<exists>s. calculate_stats outlier_sample = Inr s \<and>
        p99 s = rank_value outlier_sample (nat \<lceil>real (length outlier_sample) * 0.99\<rceil> + 1))"
proof -
  have a: "[3, 1, 2 :: real] \<noteq> []" and b: "[7 :: real] \<noteq> []" by simp_all
  have l: "length [3, 1, 2 :: real] = 3" by simp
  have c: "\<not> 20 dvd length [3, 1, 2 :: real]" and d: "\<not> 100 dvd length [3, 1, 2 :: real]"
    unfolding l by simp_all
  have l20: "length sample20 = 20" by (simp add: sample20_def)
  have e: "sample20 \<noteq> []" by (simp add: sample20_def)
  have f: "20 dvd length sample20" unfolding l20 by simp
  have l100: "length outlier_sample = 100" by (simp add: outlier_sample_def)
  have g: "outlier_sample \<noteq> []" by (simp add: outlier_sample_def)
  have h: "100 dvd length outlier_sample" unfolding l100 by simp
  from calculate_stats_percentile_rank [OF a] c d
  have A: "\<exists>s. calculate_stats [3, 1, 2] = Inr s \<and>
      p95 s = spec_nearest_rank [3, 1, 2] 0.95 \<and> p99 s = spec_nearest_rank [3, 1, 2] 0.99"
    by blast
  from calculate_stats_percentile_rank [OF b]
  have B: "\<exists>s. calculate_stats [7] = Inr s \<and> p95 s = 7 \<and> p99 s = 7"
    by blast
  from calculate_stats_percentile_rank [OF e] f
  have C: "\<exists>s. calculate_stats sample20 = Inr s \<and>
      p95 s = rank_value sample20 (nat \<lceil>real (length sample20) * 0.95\<rceil> + 1)"
    by blast
  from calculate_stats_percentile_rank [OF g] h
  have D: "\<exists>s. calculate_stats outlier_sample = Inr s \<and>
      p99 s = rank_value outlier_sample (nat \<lceil>real (length outlier_sample) * 0.99\<rceil> + 1)"
    by blast
  show ?thesis
    by (intro conjI a c d e f g h A B C D)
qed

theorem calculate_stats_total_witness:
  "[3, 1, 2 :: real] \<noteq> [] \<and>
   (\<exists>s. calculate_stats [3, 1, 2] = Inr s) \<and>
   0 \<le> pct_index (length [3, 1, 2 :: real]) 0.95 \<and>
   pct_index (length [3, 1, 2 :: real]) 0.95 < int (length [3, 1, 2 :: real]) \<and>
   0 \<le> pct_index (length [3, 1, 2 :: real]) 0.99 \<and>
   pct_index (length [3, 1, 2 :: real]) 0.99 < int (length [3, 1, 2 :: real])"
proof -
  have a: "[3, 1, 2 :: real] \<noteq> []" by simp
  from calculate_stats_total [of "[3, 1, 2]"] a show ?thesis by blast
qed

lemma calculate_stats_example:
  "calculate_stats [3, 1, 2] =
     Inr \<lparr>mean = 2, median = 2, p95 = 3, p99 = 3, min_val = 1, max_val = 3\<rparr>"
  by (simp add: calculate_stats_def statistics_mean_def statistics_median_def
      bindE_def py_index_def pct_index_def py_int_def Let_def)


section \<open>Properties of the store client and the write driver\<close>

text \<open>On a body of the documented shape \<open>{success: bool}\<close> the write is successful exactly
  when the status is 200 and the flag is true.\<close>

lemma write_successful_bool:
  "write_successful (Responded (Response s (Inr (JObj [(''success'', JBool b)])))) \<longleftrightarrow>
     s = 200 \<and> b"
  by (simp add: write_successful_def)

lemma write_key_try_cases:
  "write_key_try env =
     (if write_successful (exchange env) then Inr (t_resp env - t_start env)
      else case write_key_try env of Inl e \<Rightarrow> Inl e | Inr r \<Rightarrow> Inr (- 1))"
proof (cases "exchange env")
  case (Raised e)
  then show ?thesis
    by (simp add: write_key_try_def write_successful_def)
next
  case (Responded resp)
  show ?thesis
  proof (cases "json_body resp")
    case (Inl e)
    with Responded show ?thesis
      by (simp add: write_key_try_def write_successful_def bindE_def)
  next
    case (Inr data)
    with Responded show ?thesis
      by (cases data)
        (simp_all add: write_key_try_def write_successful_def bindE_def split: option.splits)
  qed
qed

lemma write_key_eq: "write_key env = Inr (write_latency env)"
  unfolding write_key_def write_latency_def
  by (subst write_key_try_cases) (simp split: sum.splits)

lemma signals_success_successful:
  assumes "spec_signals_success x"
  shows "write_successful x"
proof (cases x)
  case (Raised e)
  with assms show ?thesis by (simp add: spec_signals_success_def)
next
  case (Responded resp)
  show ?thesis
  proof (cases "json_body resp")
    case (Inl e)
    with assms Responded show ?thesis by (simp add: spec_signals_success_def)
  next
    case (Inr data)
    with assms Responded show ?thesis
      by (cases data) (simp_all add: spec_signals_success_def write_successful_def)
  qed
qed

text \<open>
  Claim C5, as the code has it. The write operation never raises. It returns the elapsed
  duration exactly when the status is 200 and the body decodes to an object whose
  \<open>success\<close> member is true in Python's sense (truthy), and so whenever the body
  explicitly signals success with the boolean true; on every other outcome (another status,
  a body that does not decode or is no object, a missing or falsy \<open>success\<close> member, an
  exception of the transport) it returns the failure marker \<open>-1\<close>. As the clock does not
  run backwards, the marker is returned for exactly these outcomes.
\<close>

theorem write_key_outcome:
  assumes "t_start env \<le> t_resp env"
  shows "write_key env =
           Inr (if write_successful (exchange env) then t_resp env - t_start env else - 1)
         \<and> (write_key env = Inr (- 1) \<longleftrightarrow> \<not> write_successful (exchange env))
         \<and> (spec_signals_success (exchange env) \<longrightarrow>
              write_key env = Inr (t_resp env - t_start env))"
proof -
  have a: "write_key env =
      Inr (if write_successful (exchange env) then t_resp env - t_start env else - 1)"
    unfolding write_key_eq write_latency_def by simp
  have b: "write_key env = Inr (- 1) \<longleftrightarrow> \<not> write_successful (exchange env)"
    using assms unfolding write_key_eq write_latency_def by simp
  have c: "spec_signals_success (exchange env) \<longrightarrow>
      write_key env = Inr (t_resp env - t_start env)"
    unfolding a using signals_success_successful by simp
  from a b c show ?thesis by blast
qed

text \<open>
  Claim C5, as stated, fails on a body whose \<open>success\<close> member is truthy without being the
  boolean true. On status 200 with the body \<^verbatim>\<open>{"success": "false"}\<close> the body does not
  signal success, yet \<^verbatim>\<open>data.get("success")\<close> is a non-empty string, and the write
  operation returns the elapsed duration 2 instead of the failure marker.
\<close>

theorem write_key_truthy_counterexample:
  "t_start loose_write \<le> t_resp loose_write \<and>
   \<not> spec_signals_success (exchange loose_write) \<and>
   write_key loose_write = Inr 2 \<and> write_key loose_write \<noteq> Inr (- 1)"
proof -
  have "write_successful (exchange loose_write)"
    by (simp add: loose_write_def write_successful_def)
  then have "write_key loose_write = Inr 2"
    unfolding write_key_eq write_latency_def by (simp add: loose_write_def)
  moreover have "\<not> spec_signals_success (exchange loose_write)"
    by (simp add: loose_write_def spec_signals_success_def)
  moreover have "t_start loose_write \<le> t_resp loose_write"
    by (simp add: loose_write_def)
  ultimately show ?thesis by simp
qed

lemma mapE_write_key:
  "mapE (\<lambda>j. write_key (session j)) js = Inr (map (\<lambda>j. write_latency (session j)) js)"
  by (induction js) (simp_all add: write_key_eq bindE_def)

lemma filter_successful:
  assumes "\<And>j. j \<in> set js \<Longrightarrow> t_start (session j) \<le> t_resp (session j)"
  shows "filter (\<lambda>latency. latency \<ge> 0) (map (\<lambda>j. write_latency (session j)) js) =
         map (\<lambda>j. t_resp (session j) - t_start (session j))
           (filter (\<lambda>j. write_successful (exchange (session j))) js)"
  using assms by (induction js) (simp_all add: write_latency_def)

lemma run_concurrent_writes_eq:
  assumes "0 < concurrency"
  shows "run_concurrent_writes session keys n concurrency =
     Some (Inr (filter (\<lambda>latency. latency \<ge> 0)
       (map (\<lambda>j. write_latency (session j)) [0..<length (make_tasks keys n)])))"
  using assms by (simp add: run_concurrent_writes_def Let_def mapE_write_key bindE_def)

text \<open>
  Claim C6. With a positive concurrency cap and a clock that does not run backwards, the
  write driver returns exactly the elapsed durations of the successful writes, in task
  order: every successful write contributes its duration and every failed write is left
  out.
\<close>

theorem run_concurrent_writes_sample:
  assumes "0 < concurrency"
    and "\<forall>j < length (make_tasks keys n). t_start (session j) \<le> t_resp (session j)"
  shows "run_concurrent_writes session keys n concurrency =
     Some (Inr (map (\<lambda>j. t_resp (session j) - t_start (session j))
       (filter (\<lambda>j. write_successful (exchange (session j)))
          [0..<length (make_tasks keys n)])))"
proof -
  have "\<And>j. j \<in> set [0..<length (make_tasks keys n)] \<Longrightarrow>
      t_start (session j) \<le> t_resp (session j)"
    using assms(2) by simp
  then show ?thesis
    unfolding run_concurrent_writes_eq [OF assms(1)]
    by (simp only: filter_successful)
qed


theorem write_key_outcome_witness:
  "t_start ok_write \<le> t_resp ok_write \<and> t_start failed_write \<le> t_resp failed_write \<and>
   write_successful (exchange ok_write) \<and> \<not> write_successful (exchange failed_write) \<and>
   spec_signals_success (exchange ok_write) \<and>
   write_key ok_write = Inr 2 \<and> write_key failed_write = Inr (- 1)"
proof -
  have a: "t_start ok_write \<le> t_resp ok_write" by (simp add: ok_write_def)
  have b: "t_start failed_write \<le> t_resp failed_write" by (simp add: failed_write_def)
  have c: "write_successful (exchange ok_write)"
    by (simp add: ok_write_def write_successful_def)
  have d: "\<not> write_successful (exchange failed_write)"
    by (simp add: failed_write_def write_successful_def)
  have e: "spec_signals_success (exchange ok_write)"
    by (simp add: ok_write_def spec_signals_success_def)
  have f: "t_resp ok_write - t_start ok_write = 2" by (simp add: ok_write_def)
  from write_key_outcome [OF a] e
  have "write_key ok_write = Inr (t_resp ok_write - t_start ok_write)"
    by blast
  then have g: "write_key ok_write = Inr 2"
    unfolding f .
  from write_key_outcome [OF b] d have h: "write_key failed_write = Inr (- 1)"
    by simp
  show ?thesis
    by (intro conjI a b c d e g h)
qed

theorem run_concurrent_writes_sample_witness:
  "(0::int) < 1 \<and>
   t_start (demo_session 0) \<le> t_resp (demo_session 0) \<and>
   t_start (demo_session 1) \<le> t_resp (demo_session 1) \<and>
   write_successful (exchange (demo_session 0)) \<and>
   \<not> write_successful (exchange (demo_session 1)) \<and>
   run_concurrent_writes demo_session [''key_0'', ''key_1''] 1 1 = Some (Inr [2])"
proof -
  have a: "(0::int) < 1" by simp
  have b: "\<forall>j < length (make_tasks [''key_0'', ''key_1''] 1).
      t_start (demo_session j) \<le> t_resp (demo_session j)"
    by (simp add: demo_session_def ok_write_def failed_write_def)
  have n: "length (make_tasks [''key_0'', ''key_1''] 1) = 2"
    by (simp add: make_tasks_def)
  have l: "[0..<2] = [0, 1]"
    by (simp add: upt_conv_Cons)
  have "map (\<lambda>j. t_resp (demo_session j) - t_start (demo_session j))
       (filter (\<lambda>j. write_successful (exchange (demo_session j)))
          [0..<length (make_tasks [''key_0'', ''key_1''] 1)]) = [2]"
    unfolding n l
    by (simp add: demo_session_def ok_write_def failed_write_def write_successful_def)
  moreover have "t_start (demo_session 0) \<le> t_resp (demo_session 0)"
    and "t_start (demo_session 1) \<le> t_resp (demo_session 1)"
    and "write_successful (exchange (demo_session 0))"
    and "\<not> write_successful (exchange (demo_session 1))"
    by (simp_all add: demo_session_def ok_write_def failed_write_def write_successful_def)
  ultimately show ?thesis
    using run_concurrent_writes_sample [OF a b] a by simp
qed


section \<open>Properties of the consistency checker\<close>

lemma classify_step_class:
  "classify_step ld fd k (m, mm, ms) =
     (case spec_classify ld fd k of
        Missing \<Rightarrow> (m, mm, ms @ [k])
      | Matching \<Rightarrow> (m + 1, mm, ms)
      | Mismatched \<Rightarrow> (m, mm @ [k], ms))"
  by (auto simp: classify_step_def spec_classify_def split: option.splits)

lemma fold_classify_step:
  "fold (classify_step ld fd) ks (m, mm, ms) =
     (m + length (filter (\<lambda>k. spec_classify ld fd k = Matching) ks),
      mm @ filter (\<lambda>k. spec_classify ld fd k = Mismatched) ks,
      ms @ filter (\<lambda>k. spec_classify ld fd k = Missing) ks)"
proof (induction ks arbitrary: m mm ms)
  case Nil
  show ?case by simp
next
  case (Cons k ks)
  show ?case
    by (cases "spec_classify ld fd k") (simp_all add: classify_step_class Cons.IH)
qed

lemma class_partition:
  "length (filter (\<lambda>k. spec_classify ld fd k = Matching) ks) +
   length (filter (\<lambda>k. spec_classify ld fd k = Mismatched) ks) +
   length (filter (\<lambda>k. spec_classify ld fd k = Missing) ks) = length ks"
proof (induction ks)
  case Nil
  show ?case by simp
next
  case (Cons k ks)
  then show ?case by (cases "spec_classify ld fd k") simp_all
qed

lemma check_follower_eq:
  "check_follower ld i fd =
     \<lparr>follower = ''f'' @ str_nat i,
      keys_count = length fd,
      matches_leader = (filter (\<lambda>k. spec_classify ld fd k = Mismatched) (map fst ld) = [] \<and>
                        filter (\<lambda>k. spec_classify ld fd k = Missing) (map fst ld) = []),
      matching_count = length (filter (\<lambda>k. spec_classify ld fd k = Matching) (map fst ld)),
      mismatched_values = length (filter (\<lambda>k. spec_classify ld fd k = Mismatched) (map fst ld)),
      missing_keys = length (filter (\<lambda>k. spec_classify ld fd k = Missing) (map fst ld)),
      mismatched_examples = take 3 (filter (\<lambda>k. spec_classify ld fd k = Mismatched) (map fst ld))\<rparr>"
  unfolding check_follower_def fold_classify_step by simp

lemma check_follower_partition:
  "matching_count (check_follower ld i fd) + mismatched_values (check_follower ld i fd) +
   missing_keys (check_follower ld i fd) = length ld"
  unfolding check_follower_eq using class_partition [of ld fd "map fst ld"] by simp

text \<open>
  Claim C2. For every leader dump and all follower dumps, every record of the report
  satisfies matching + mismatched + missing = leader key count. The three counts of a
  follower's record are the numbers of leader keys in the three classes; every key has
  exactly one class, and the class is \<open>Missing\<close> exactly for the keys absent from the
  follower's dump.
\<close>

theorem check_consistency_partition:
  "(\<forall>r \<in> set (followers (check_consistency leader_data follower_dumps)).
      matching_count r + mismatched_values r + missing_keys r =
      leader_keys (check_consistency leader_data follower_dumps)) \<and>
   leader_keys (check_consistency leader_data follower_dumps) = length leader_data \<and>
   matching_count (check_follower leader_data i follower_data) =
     length (filter (\<lambda>k. spec_classify leader_data follower_data k = Matching) (map fst leader_data)) \<and>
   mismatched_values (check_follower leader_data i follower_data) =
     length (filter (\<lambda>k. spec_classify leader_data follower_data k = Mismatched) (map fst leader_data)) \<and>
   missing_keys (check_follower leader_data i follower_data) =
     length (filter (\<lambda>k. spec_classify leader_data follower_data k = Missing) (map fst leader_data)) \<and>
   (spec_classify leader_data follower_data k = Missing \<longleftrightarrow> map_of follower_data k = None)"
proof -
  have "\<forall>r \<in> set (followers (check_consistency leader_data follower_dumps)).
      matching_count r + mismatched_values r + missing_keys r = length leader_data"
    by (auto simp: check_consistency_def check_follower_partition)
  moreover have "spec_classify leader_data follower_data k = Missing \<longleftrightarrow>
      map_of follower_data k = None"
    by (simp add: spec_classify_def split: option.splits)
  ultimately show ?thesis
    by (simp add: check_follower_eq check_consistency_def)
qed

theorem check_consistency_partition_witness:
  "followers (check_consistency [(''a'', 1::nat), (''b'', 2), (''c'', 3)]
      [[(''a'', 1), (''b'', 9)]]) =
     [\<lparr>follower = ''f1'', keys_count = 2, matches_leader = False,
       matching_count = 1, mismatched_values = 1, missing_keys = 1,
       mismatched_examples = [''b'']\<rparr>] \<and>
   leader_keys (check_consistency [(''a'', 1::nat), (''b'', 2), (''c'', 3)]
      [[(''a'', 1), (''b'', 9)]]) = 1 + 1 + 1"
proof -
  let ?report = "check_consistency [(''a'', 1::nat), (''b'', 2), (''c'', 3)]
      [[(''a'', 1), (''b'', 9)]]"
  let ?r = "\<lparr>follower = ''f1'', keys_count = 2, matches_leader = False,
       matching_count = 1, mismatched_values = 1, missing_keys = 1,
       mismatched_examples = [''b'']\<rparr>"
  have f: "followers ?report = [?r]"
    by (simp add: check_consistency_def check_follower_def classify_step_def str_nat.simps)
  then have "?r \<in> set (followers ?report)" by simp
  with check_consistency_partition
    [of "[(''a'', 1::nat), (''b'', 2), (''c'', 3)]" "[[(''a'', 1), (''b'', 9)]]"]
  have "matching_count ?r + mismatched_values ?r + missing_keys ?r = leader_keys ?report"
    by blast
  then have "leader_keys ?report = 1 + 1 + 1" by simp
  with f show ?thesis by blast
qed

lemma classify_cong:
  assumes "map_of fd1 k = map_of fd2 k"
  shows "spec_classify ld fd1 k = spec_classify ld fd2 k"
  using assms by (simp add: spec_classify_def)

text \<open>
  Claim C7. When two follower dumps agree on every key of the leader dump (the same value,
  or absent from both), the checker's record for the follower has the same matching,
  mismatched and missing counts, the same example mismatched keys and the same
  fully-consistent flag: keys of a follower that the leader does not have play no part.
\<close>

theorem check_follower_extra_keys_invisible:
  assumes "\<forall>k \<in> set (map fst leader_data). map_of follower1 k = map_of follower2 k"
  shows "matching_count (check_follower leader_data i follower1) =
           matching_count (check_follower leader_data i follower2) \<and>
         mismatched_values (check_follower leader_data i follower1) =
           mismatched_values (check_follower leader_data i follower2) \<and>
         missing_keys (check_follower leader_data i follower1) =
           missing_keys (check_follower leader_data i follower2) \<and>
         mismatched_examples (check_follower leader_data i follower1) =
           mismatched_examples (check_follower leader_data i follower2) \<and>
         matches_leader (check_follower leader_data i follower1) =
           matches_leader (check_follower leader_data i follower2)"
proof -
  have "filter (\<lambda>k. spec_classify leader_data follower1 k = c) (map fst leader_data) =
      filter (\<lambda>k. spec_classify leader_data follower2 k = c) (map fst leader_data)" for c
  proof (rule filter_cong [OF refl])
    fix k
    assume "k \<in> set (map fst leader_data)"
    with assms have "map_of follower1 k = map_of follower2 k" by blast
    then have "spec_classify leader_data follower1 k = spec_classify leader_data follower2 k"
      by (rule classify_cong)
    then show "(spec_classify leader_data follower1 k = c) = (spec_classify leader_data follower2 k = c)"
      by (rule arg_cong)
  qed
  then show ?thesis
    unfolding check_follower_eq by simp
qed


theorem check_follower_extra_keys_invisible_witness:
  "keys_count (check_follower [(''a'', 1::nat), (''b'', 2)] 1 [(''a'', 1), (''z'', 5)]) = 2 \<and>
   keys_count (check_follower [(''a'', 1::nat), (''b'', 2)] 1 [(''a'', 1)]) = 1 \<and>
   matching_count (check_follower [(''a'', 1::nat), (''b'', 2)] 1 [(''a'', 1), (''z'', 5)]) =
     matching_count (check_follower [(''a'', 1::nat), (''b'', 2)] 1 [(''a'', 1)]) \<and>
   missing_keys (check_follower [(''a'', 1::nat), (''b'', 2)] 1 [(''a'', 1), (''z'', 5)]) =
     missing_keys (check_follower [(''a'', 1::nat), (''b'', 2)] 1 [(''a'', 1)])"
proof -
  have h: "\<forall>k \<in> set (map fst [(''a'', 1::nat), (''b'', 2)]).
      map_of [(''a'', 1::nat), (''z'', 5)] k = map_of [(''a'', 1)] k"
    by simp
  have "keys_count (check_follower [(''a'', 1::nat), (''b'', 2)] 1 [(''a'', 1), (''z'', 5)]) = 2"
    and "keys_count (check_follower [(''a'', 1::nat), (''b'', 2)] 1 [(''a'', 1)]) = 1"
    by (simp_all add: check_follower_eq)
  with check_follower_extra_keys_invisible [OF h, of 1] show ?thesis
    by blast
qed


section \<open>Properties of the orchestrator\<close>

lemma calculate_stats_returns: "\<exists>s. calculate_stats xs = Inr s"
proof (cases "xs = []")
  case True
  then show ?thesis by (simp add: calculate_stats_def)
next
  case False
  then show ?thesis by (simp add: calculate_stats_nonempty)
qed

lemma run_concurrent_writes_returns:
  "\<exists>lats. run_concurrent_writes session keys NUM_WRITES_PER_KEY CONCURRENT_WRITES
     = Some (Inr lats)"
  by (simp add: run_concurrent_writes_eq CONCURRENT_WRITES_def)

lemma sweep_Cons:
  "sweep world keys pos (q # rest) acc =
     sweep world keys (Suc pos) rest
       (case step_entry world keys pos of None \<Rightarrow> acc | Some s \<Rightarrow> acc(q \<mapsto> s))"
proof -
  obtain lats where l: "run_concurrent_writes (writes (world pos)) keys
      NUM_WRITES_PER_KEY CONCURRENT_WRITES = Some (Inr lats)"
    using run_concurrent_writes_returns by blast
  obtain s where s: "calculate_stats lats = Inr s"
    using calculate_stats_returns by blast
  show ?thesis
    by (simp add: step_entry_def l s)
qed

lemma sweep_result:
  assumes "distinct qs"
  shows "\<exists>m. sweep world keys pos qs acc = Some (Inr m) \<and>
           (\<forall>q. q \<notin> set qs \<longrightarrow> m q = acc q) \<and>
           (\<forall>j < length qs. m (qs ! j) =
              (case step_entry world keys (pos + j) of None \<Rightarrow> acc (qs ! j) | Some s \<Rightarrow> Some s))"
  using assms
proof (induction qs arbitrary: pos acc)
  case Nil
  show ?case by simp
next
  case (Cons q rest)
  define acc' where
    "acc' = (case step_entry world keys pos of None \<Rightarrow> acc | Some s \<Rightarrow> acc(q \<mapsto> s))"
  from Cons.prems have d: "distinct rest" and nq: "q \<notin> set rest" by simp_all
  have other: "acc' x = acc x" if "x \<noteq> q" for x
    using that by (simp add: acc'_def split: option.splits)
  have here: "acc' q = (case step_entry world keys pos of None \<Rightarrow> acc q | Some s \<Rightarrow> Some s)"
    by (simp add: acc'_def split: option.splits)
  from Cons.IH [OF d, of "Suc pos" acc'] obtain m where
    m: "sweep world keys (Suc pos) rest acc' = Some (Inr m)"
    and out: "\<And>x. x \<notin> set rest \<Longrightarrow> m x = acc' x"
    and inn: "\<And>j. j < length rest \<Longrightarrow> m (rest ! j) =
        (case step_entry world keys (Suc pos + j) of None \<Rightarrow> acc' (rest ! j) | Some s \<Rightarrow> Some s)"
    by blast
  have a: "sweep world keys pos (q # rest) acc = Some (Inr m)"
    unfolding sweep_Cons using m by (simp only: acc'_def)
  have b: "m x = acc x" if "x \<notin> set (q # rest)" for x
    using that out [of x] other [of x] by simp
  have c: "m ((q # rest) ! j) =
      (case step_entry world keys (pos + j) of None \<Rightarrow> acc ((q # rest) ! j) | Some s \<Rightarrow> Some s)"
    if "j < length (q # rest)" for j
  proof (cases j)
    case 0
    then show ?thesis using out [OF nq] here by (simp cong: option.case_cong)
  next
    case (Suc j')
    then have j': "j' < length rest" using that by simp
    then have "rest ! j' \<noteq> q" using nq by (metis nth_mem)
    then have "acc' (rest ! j') = acc (rest ! j')"
      by (rule other)
    then show ?thesis using inn [OF j'] Suc by (simp cong: option.case_cong)
  qed
  from a b c show ?case by blast
qed


lemma step_entry_cases:
  "(\<not> set_quorum (config_exchange (world j)) \<longrightarrow> step_entry world keys j = None) \<and>
   (set_quorum (config_exchange (world j)) \<longrightarrow>
      (\<exists>lats. run_concurrent_writes (writes (world j)) keys
                 NUM_WRITES_PER_KEY CONCURRENT_WRITES = Some (Inr lats) \<and>
              (lats = [] \<longrightarrow> step_entry world keys j = None) \<and>
              (lats \<noteq> [] \<longrightarrow>
                 (\<exists>s. calculate_stats lats = Inr s \<and> step_entry world keys j = Some s))))"
proof -
  obtain lats where l: "run_concurrent_writes (writes (world j)) keys
      NUM_WRITES_PER_KEY CONCURRENT_WRITES = Some (Inr lats)"
    using run_concurrent_writes_returns by blast
  obtain s where s: "calculate_stats lats = Inr s"
    using calculate_stats_returns by blast
  show ?thesis
    by (simp add: step_entry_def l s)
qed

lemma run_analysis_after_sweep:
  assumes "sweep world campaign_keys 0 QUORUM_VALUES Map.empty = Some (Inr m)"
  shows "run_analysis world tail =
     (case check_consistency_raises tail of
        Some e \<Rightarrow> Some (Inl e)
      | None \<Rightarrow>
          if m \<noteq> Map.empty then
            (case plot_results_raises tail of
               Some e \<Rightarrow> Some (Inl e)
             | None \<Rightarrow> Some (Inr m))
          else Some (Inr m))"
  by (simp add: run_analysis_def assms)

lemma run_analysis_returns_sweep:
  assumes "sweep world campaign_keys 0 QUORUM_VALUES Map.empty = Some (Inr m)"
    and "run_analysis world tail = Some (Inr r)"
  shows "r = m"
  using assms(2) unfolding run_analysis_after_sweep [OF assms(1)]
  by (simp split: option.splits if_splits)

lemma run_analysis_quiet:
  assumes "sweep world campaign_keys 0 QUORUM_VALUES Map.empty = Some (Inr m)"
    and "check_consistency_raises tail = None" and "plot_results_raises tail = None"
  shows "run_analysis world tail = Some (Inr m)"
  unfolding run_analysis_after_sweep [OF assms(1)] using assms(2,3) by simp

text \<open>
  Claim C8. The loop over the quorum values ends with a results mapping whatever the store
  answers, and a run that returns, as every run does in which neither the consistency
  check nor the plot raises, returns that mapping. A quorum value whose quorum request
  fails has no entry, and the values after it are still tested: a value whose quorum
  request succeeds has an entry, the statistics of its latencies, exactly when its step
  returned at least one successful write. No other key has an entry.
\<close>

theorem run_analysis_skips_failed_quorum:
  "\<exists>m. sweep world campaign_keys 0 QUORUM_VALUES Map.empty = Some (Inr m) \<and>
       (\<forall>r. run_analysis world tail = Some (Inr r) \<longrightarrow> r = m) \<and>
       (check_consistency_raises tail = None \<and> plot_results_raises tail = None \<longrightarrow>
          run_analysis world tail = Some (Inr m)) \<and>
       dom m \<subseteq> set QUORUM_VALUES \<and>
       (\<forall>j < length QUORUM_VALUES.
          (\<not> set_quorum (config_exchange (world j)) \<longrightarrow> m (QUORUM_VALUES ! j) = None) \<and>
          (set_quorum (config_exchange (world j)) \<longrightarrow>
             (\<exists>lats. run_concurrent_writes (writes (world j)) campaign_keys
                        NUM_WRITES_PER_KEY CONCURRENT_WRITES = Some (Inr lats) \<and>
                (lats = [] \<longrightarrow> m (QUORUM_VALUES ! j) = None) \<and>
                (lats \<noteq> [] \<longrightarrow>
                   (\<exists>s. calculate_stats lats = Inr s \<and> m (QUORUM_VALUES ! j) = Some s)))))"
proof -
  have "distinct QUORUM_VALUES"
    by (simp add: QUORUM_VALUES_def)
  from sweep_result [OF this, of world campaign_keys 0 Map.empty] obtain m where
    m: "sweep world campaign_keys 0 QUORUM_VALUES Map.empty = Some (Inr m)"
    and out: "\<And>q. q \<notin> set QUORUM_VALUES \<Longrightarrow> m q = None"
    and inn: "\<And>j. j < length QUORUM_VALUES \<Longrightarrow>
        m (QUORUM_VALUES ! j) =
        (case step_entry world campaign_keys (0 + j) of None \<Rightarrow> None | Some s \<Rightarrow> Some s)"
    by auto
  have e: "m (QUORUM_VALUES ! j) = step_entry world campaign_keys j"
    if "j < length QUORUM_VALUES" for j
    using inn [OF that] by (simp split: option.splits)
  have r: "\<forall>r. run_analysis world tail = Some (Inr r) \<longrightarrow> r = m"
    using run_analysis_returns_sweep [OF m] by blast
  have q: "check_consistency_raises tail = None \<and> plot_results_raises tail = None \<longrightarrow>
      run_analysis world tail = Some (Inr m)"
    using run_analysis_quiet [OF m] by blast
  have d: "dom m \<subseteq> set QUORUM_VALUES"
  proof
    fix q
    assume "q \<in> dom m"
    then have "m q \<noteq> None" by (simp add: dom_def)
    then show "q \<in> set QUORUM_VALUES"
      by (rule contrapos_np) (rule out)
  qed
  have f: "\<forall>j < length QUORUM_VALUES.
          (\<not> set_quorum (config_exchange (world j)) \<longrightarrow> m (QUORUM_VALUES ! j) = None) \<and>
          (set_quorum (config_exchange (world j)) \<longrightarrow>
             (\<exists>lats. run_concurrent_writes (writes (world j)) campaign_keys
                        NUM_WRITES_PER_KEY CONCURRENT_WRITES = Some (Inr lats) \<and>
                (lats = [] \<longrightarrow> m (QUORUM_VALUES ! j) = None) \<and>
                (lats \<noteq> [] \<longrightarrow>
                   (\<exists>s. calculate_stats lats = Inr s \<and> m (QUORUM_VALUES ! j) = Some s))))"
    using e step_entry_cases [of world _ campaign_keys] by simp
  from m r q d f show ?thesis by blast
qed

text \<open>When the consistency check raises, the run raises and returns no mapping.\<close>

lemma run_analysis_check_raises:
  "run_analysis world broken_tail = Some (Inl AttributeError)"
proof -
  have "distinct QUORUM_VALUES"
    by (simp add: QUORUM_VALUES_def)
  from sweep_result [OF this, of world campaign_keys 0 Map.empty] obtain m where
    "sweep world campaign_keys 0 QUORUM_VALUES Map.empty = Some (Inr m)"
    by blast
  then show ?thesis
    by (simp add: run_analysis_after_sweep broken_tail_def)
qed

lemma length_make_tasks: "length (make_tasks keys n) = nat n * length keys"
  by (simp add: make_tasks_def length_concat comp_def sum_list_replicate map_replicate_const)


lemma demo_world_latencies:
  "run_concurrent_writes (writes (demo_world j)) campaign_keys
     NUM_WRITES_PER_KEY CONCURRENT_WRITES =
   Some (Inr (if j = 2 then [] else replicate 100 1))"
proof -
  have w: "write_latency (writes (demo_world j) i) = (if j = 2 then - 1 else 1)" for i
    by (simp add: write_latency_def demo_world_def write_successful_def)
  have n: "length (make_tasks campaign_keys NUM_WRITES_PER_KEY) = 100"
    by (simp add: length_make_tasks campaign_keys_def NUM_KEYS_def NUM_WRITES_PER_KEY_def)
  have c: "0 < CONCURRENT_WRITES" by (simp add: CONCURRENT_WRITES_def)
  show ?thesis
    unfolding run_concurrent_writes_eq [OF c] w n by (simp add: map_replicate_const)
qed

theorem run_analysis_skips_failed_quorum_witness:
  "0 < length QUORUM_VALUES \<and> 1 < length QUORUM_VALUES \<and> 2 < length QUORUM_VALUES \<and>
   \<not> set_quorum (config_exchange (demo_world 0)) \<and>
   set_quorum (config_exchange (demo_world 1)) \<and>
   set_quorum (config_exchange (demo_world 2)) \<and>
   check_consistency_raises quiet_tail = None \<and> plot_results_raises quiet_tail = None \<and>
   (\<exists>m. run_analysis demo_world quiet_tail = Some (Inr m) \<and>
        m 1 = None \<and> (\<exists>s. m 2 = Some s) \<and> m 3 = None)"
proof -
  have l: "0 < length QUORUM_VALUES" "1 < length QUORUM_VALUES" "2 < length QUORUM_VALUES"
    by (simp_all add: QUORUM_VALUES_def)
  have q: "QUORUM_VALUES ! 0 = 1" "QUORUM_VALUES ! 1 = 2" "QUORUM_VALUES ! 2 = 3"
    by (simp_all add: QUORUM_VALUES_def)
  have a: "\<not> set_quorum (config_exchange (demo_world 0))"
    by (simp add: demo_world_def set_quorum_def)
  have b: "set_quorum (config_exchange (demo_world 1))"
    by (simp add: demo_world_def set_quorum_def)
  have c: "set_quorum (config_exchange (demo_world 2))"
    by (simp add: demo_world_def set_quorum_def)
  have t: "check_consistency_raises quiet_tail = None" "plot_results_raises quiet_tail = None"
    by (simp_all add: quiet_tail_def)
  from run_analysis_skips_failed_quorum [of demo_world quiet_tail] obtain m where
    r: "check_consistency_raises quiet_tail = None \<and> plot_results_raises quiet_tail = None \<longrightarrow>
          run_analysis demo_world quiet_tail = Some (Inr m)"
    and e: "\<And>j. j < length QUORUM_VALUES \<Longrightarrow>
          (\<not> set_quorum (config_exchange (demo_world j)) \<longrightarrow> m (QUORUM_VALUES ! j) = None) \<and>
          (set_quorum (config_exchange (demo_world j)) \<longrightarrow>
             (\<exists>lats. run_concurrent_writes (writes (demo_world j)) campaign_keys
                        NUM_WRITES_PER_KEY CONCURRENT_WRITES = Some (Inr lats) \<and>
                (lats = [] \<longrightarrow> m (QUORUM_VALUES ! j) = None) \<and>
                (lats \<noteq> [] \<longrightarrow>
                   (\<exists>s. calculate_stats lats = Inr s \<and> m (QUORUM_VALUES ! j) = Some s))))"
    by blast
  have r': "run_analysis demo_world quiet_tail = Some (Inr m)"
    using r t by blast
  have m1: "m 1 = None"
    using e [OF l(1)] a q(1) by simp
  have m2: "\<exists>s. m 2 = Some s"
    using e [OF l(2)] b q(2) unfolding demo_world_latencies by auto
  have m3: "m 3 = None"
    using e [OF l(3)] c q(3) unfolding demo_world_latencies by simp
  from r' m1 m2 m3 have "\<exists>m. run_analysis demo_world quiet_tail = Some (Inr m) \<and>
        m 1 = None \<and> (\<exists>s. m 2 = Some s) \<and> m 3 = None"
    by blast
  then show ?thesis
    by (intro conjI l a b c t)
qed

section \<open>The concurrency bound\<close>

lemma exec_preserves:
  assumes "exec p tk p' tk'" and "task_ok tk"
  shows "task_ok tk' \<and> p' + slot_count tk' = p + slot_count tk"
  using assms
  by (induction rule: exec.induct)
    (auto simp: task_ok_def bounded_write_def handler_def slot_count_def)

lemma task_ok_timing: "task_ok tk \<Longrightarrow> timing tk \<Longrightarrow> has_slot tk"
  by (auto simp: task_ok_def)

lemma holding_update:
  assumes "i < length xs"
  shows "length (filter has_slot (xs[i := y])) + slot_count (xs ! i) =
         length (filter has_slot xs) + slot_count y"
  using assms
proof (induction xs arbitrary: i)
  case Nil
  then show ?case by simp
next
  case (Cons x xs)
  then show ?case
    by (cases i) (auto simp: slot_count_def)
qed

lemma filter_length_mono:
  assumes "\<And>x. x \<in> set xs \<Longrightarrow> P x \<Longrightarrow> Q x"
  shows "length (filter P xs) \<le> length (filter Q xs)"
  using assms by (induction xs) auto

lemma reachable_invariant:
  assumes "reachable c t s"
  shows "(\<forall>tk \<in> set (tasks s). task_ok tk) \<and> permits s + holding_slot s = c \<and>
         length (tasks s) = t"
  using assms
proof (induction rule: reachable.induct)
  case (start c t)
  show ?case
    by (simp add: initial_def fresh_task_def holding_slot_def task_ok_def)
next
  case (later c t s s')
  from later.hyps(2) show ?case
  proof (cases rule: sched_step.cases)
    case (run_task i p' tk')
    from later.IH have ok: "\<And>tk. tk \<in> set (tasks s) \<Longrightarrow> task_ok tk"
      and sum: "permits s + holding_slot s = c" and len: "length (tasks s) = t"
      by simp_all
    have old: "task_ok (tasks s ! i)"
      using run_task(2) by (intro ok nth_mem)
    from exec_preserves [OF run_task(3) old]
    have new: "task_ok tk'"
      and bal: "p' + slot_count tk' = permits s + slot_count (tasks s ! i)"
      by simp_all
    have a: "\<forall>tk \<in> set (tasks s'). task_ok tk"
    proof
      fix tk
      assume "tk \<in> set (tasks s')"
      then have "tk \<in> set ((tasks s)[i := tk'])" by (simp add: run_task(1))
      then have "tk = tk' \<or> tk \<in> set (tasks s)"
        using set_update_subset_insert [of "tasks s" i tk'] by auto
      then show "task_ok tk" using new ok by blast
    qed
    have "holding_slot s' + slot_count (tasks s ! i) = holding_slot s + slot_count tk'"
      using holding_update [OF run_task(2), of tk']
      by (simp add: holding_slot_def run_task(1))
    then have b: "permits s' + holding_slot s' = c"
      using bal sum by (simp add: run_task(1))
    have "length (tasks s') = t"
      using len by (simp add: run_task(1))
    with a b show ?thesis by blast
  qed
qed

text \<open>
  Claim C9. In every state that \<open>t\<close> tasks sharing a semaphore of \<open>c\<close> slots can reach, at
  most \<open>c\<close> tasks are inside their timed region, and a task inside its timed region holds a
  slot: the timer starts after the slot is acquired and stops before the slot is released,
  so waiting for a slot is not measured.
\<close>

theorem timed_region_bounded:
  assumes "reachable c t s"
  shows "in_timed_region s \<le> c \<and> (\<forall>tk \<in> set (tasks s). timing tk \<longrightarrow> has_slot tk)"
proof -
  from reachable_invariant [OF assms]
  have ok: "\<And>tk. tk \<in> set (tasks s) \<Longrightarrow> task_ok tk"
    and sum: "permits s + holding_slot s = c"
    by simp_all
  have slot: "\<forall>tk \<in> set (tasks s). timing tk \<longrightarrow> has_slot tk"
    using ok task_ok_timing by blast
  then have "in_timed_region s \<le> holding_slot s"
    unfolding in_timed_region_def holding_slot_def by (intro filter_length_mono) blast
  also have "\<dots> \<le> c" using sum by simp
  finally show ?thesis using slot by blast
qed


lemma demo_sched_reachable: "reachable 1 2 demo_sched"
proof -
  let ?t1 = "\<lparr>todo = [StartTimer, AwaitPost, StopTimer, ReadBody, Release],
             has_slot = True, timing = False\<rparr>"
  let ?t2 = "\<lparr>todo = [AwaitPost, StopTimer, ReadBody, Release],
             has_slot = True, timing = True\<rparr>"
  let ?s0 = "\<lparr>permits = 1, tasks = [fresh_task, fresh_task]\<rparr>"
  let ?s1 = "\<lparr>permits = 0, tasks = [?t1, fresh_task]\<rparr>"
  have i: "initial 1 2 = ?s0"
    by (simp add: initial_def fresh_task_def numeral_2_eq_2)
  have r0: "reachable 1 2 ?s0"
    using reachable.start [of 1 2] by (simp only: i)
  have "exec 1 fresh_task (1 - 1) (fresh_task\<lparr>todo := [StartTimer, AwaitPost, StopTimer, ReadBody, Release], has_slot := True\<rparr>)"
    by (rule exec.acquire) (simp_all add: fresh_task_def bounded_write_def)
  then have e1: "exec (permits ?s0) (tasks ?s0 ! 0) 0 ?t1"
    by (simp add: fresh_task_def)
  have "sched_step ?s0 \<lparr>permits = 0, tasks = (tasks ?s0)[0 := ?t1]\<rparr>"
    by (rule sched_step.run_task [OF _ e1]) simp
  then have s1: "sched_step ?s0 ?s1" by simp
  have "exec 0 ?t1 0 (?t1\<lparr>todo := [AwaitPost, StopTimer, ReadBody, Release], timing := True\<rparr>)"
    by (rule exec.start_timer) simp
  then have e2: "exec (permits ?s1) (tasks ?s1 ! 0) 0 ?t2"
    by simp
  have "sched_step ?s1 \<lparr>permits = 0, tasks = (tasks ?s1)[0 := ?t2]\<rparr>"
    by (rule sched_step.run_task [OF _ e2]) simp
  then have s2: "sched_step ?s1 demo_sched" by (simp add: demo_sched_def)
  from reachable.later [OF reachable.later [OF r0 s1] s2] show ?thesis .
qed

theorem timed_region_bounded_witness:
  "reachable 1 2 demo_sched \<and> in_timed_region demo_sched = 1 \<and>
   in_timed_region demo_sched \<le> 1 \<and>
   timing (hd (tasks demo_sched)) \<and> has_slot (hd (tasks demo_sched))"
proof -
  have one: "in_timed_region demo_sched = 1"
    by (simp add: in_timed_region_def demo_sched_def fresh_task_def)
  have mem: "hd (tasks demo_sched) \<in> set (tasks demo_sched)"
    and tm: "timing (hd (tasks demo_sched))"
    by (simp_all add: demo_sched_def)
  from timed_region_bounded [OF demo_sched_reachable] mem tm
  have "has_slot (hd (tasks demo_sched))" by blast
  with timed_region_bounded [OF demo_sched_reachable] demo_sched_reachable one tm
  show ?thesis by simp
qed

end
